theory Spec2Isabelle
  imports Complex_Main
begin

section \<open>The batched generation loop of \<open>GPT_warpper.generate\<close>\<close>

text \<open>
  A shallow embedding of \<open>src/ChatTTS/model/gpt.py\<close>, method \<open>generate\<close>.
  Tensors are lists (a \<open>(b, L, num_vq)\<close> tensor of token ids is an
  \<open>int list list list\<close>), every raise of the source is a value of \<open>error\<close>,
  and the generator is the list of the payloads it yields when it is consumed to its end.
  The transformer with its heads and the random draw of \<open>torch.multinomial\<close> are
  parameters of a call. Floating point numbers are idealised: a finite float is a real,
  and the three special values are constructors of \<open>logit\<close>.
\<close>

subsection \<open>Data\<close>

datatype error = ShapeError | IndexError | SamplingError | AmbiguousBool | EmptyStack

datatype logit = NegInf | Val real | PosInf | NaN

text \<open>\<open>eos_token: Union[int, torch.Tensor]\<close>: a Python int (or 0-dim tensor), or a 1-dim tensor.\<close>

datatype eos = EosInt int | EosTensor "int list"

text \<open>The caller's temperature tensor: its shape and its values in row-major order.\<close>

record tensor =
  shape :: "nat list"
  vals :: "real list"

text \<open>What one forward pass gives: \<open>outputs.attentions\<close>, \<open>hidden_states[:, -1]\<close> (one entry
  per batch row) and the logits of the last position after the heads, as rows
  (\<open>b\<close> rows in text mode, \<open>b * num_vq\<close> rows in audio mode).\<close>

record ('a, 'h) gpt_out =
  attn :: 'a
  hidden_last :: "'h list"
  head_logits :: "real list list"

type_synonym processor = "int list list \<Rightarrow> logit list list \<Rightarrow> logit list list"

text \<open>The arguments of a call. \<open>prompt_ids\<close> is the argument \<open>inputs_ids\<close>, a
  \<open>(b, L, num_vq)\<close> tensor; \<open>forward\<close> stands for \<open>prepare_inputs_for_generation\<close>,
  \<open>self.gpt.forward\<close> and the heads at step \<open>i\<close> on the current token rows and the mask
  slice (the prompt embedding \<open>emb\<close> and the cache are functions of these);
  \<open>draw i r ws\<close> is the index \<open>torch.multinomial\<close> returns for row \<open>r\<close> at step \<open>i\<close>
  under the call's seed.\<close>

record ('a, 'h) call =
  forward :: "nat \<Rightarrow> int list list list \<Rightarrow> bool list list \<Rightarrow> ('a, 'h) gpt_out"
  draw :: "nat \<Rightarrow> nat \<Rightarrow> real list \<Rightarrow> nat"
  num_vq :: nat
  prompt_ids :: "int list list list"
  temperature :: tensor
  eos_token :: eos
  attention_mask :: "bool list list option"
  max_new_token :: nat
  min_new_token :: nat
  LogitsWarpers :: "processor list"
  LogitsProcessors :: "processor list"
  infer_text :: bool
  return_hidden :: bool
  stream :: bool

text \<open>\<open>self.logger.warn(f'Incomplete result. hit max_new_token: {max_new_token}')\<close>.\<close>

datatype warning = IncompleteResult nat

text \<open>A row of the key \<open>'ids'\<close>: \<open>num_vq\<close>-wide token rows in audio mode, column 0 in text mode.\<close>

datatype row_ids = Codes "int list list" | TextIds "int list"

record ('a, 'h) payload =
  ids :: "row_ids list"
  p_attentions :: "'a list"
  p_hiddens :: "'h list list"

text \<open>The local variables of the loop; \<open>temperature_rows\<close> is the local \<open>temperature\<close>
  after line 210, \<open>yielded\<close> the payloads yielded so far.\<close>

record ('a, 'h) state =
  inputs_ids :: "int list list list"
  finish :: "bool list"
  end_idx :: "nat list"
  attentions :: "'a list"
  hiddens :: "'h list list"
  temperature_rows :: "real list"
  attention_mask_cache :: "bool list list"
  yielded :: "('a, 'h) payload list"

text \<open>What a consumed call leaves behind: the payloads, the exception if one was raised,
  the warnings logged, and the caller's temperature tensor.\<close>

record ('a, 'h) outcome =
  emitted :: "('a, 'h) payload list"
  raised :: "error option"
  warnings :: "warning list"
  temperature_after :: tensor

subsection \<open>Helpers\<close>

fun collect :: "(error + 'a) list \<Rightarrow> error + 'a list" where
  "collect [] = Inr []"
| "collect (x # xs) =
     (case x of Inl e \<Rightarrow> Inl e
      | Inr v \<Rightarrow> (case collect xs of Inl e \<Rightarrow> Inl e | Inr vs \<Rightarrow> Inr (v # vs)))"

text \<open>\<open>t.shape[1]\<close> of a tensor with at least one batch row.\<close>

definition seq_len :: "'a list list \<Rightarrow> nat" where
  "seq_len t = (case t of [] \<Rightarrow> 0 | r # _ \<Rightarrow> length r)"

definition start_idx :: "('a, 'h) call \<Rightarrow> nat" where
  "start_idx c = seq_len (prompt_ids c)"

definition all_finished :: "bool list \<Rightarrow> bool" where
  "all_finished f = list_all (\<lambda>x. x) f"

subsection \<open>Line 210: the temperature\<close>

definition unsqueeze0 :: "tensor \<Rightarrow> tensor" where
  "unsqueeze0 t = t\<lparr>shape := 1 # shape t\<rparr>"

text \<open>\<open>.expand(b, -1).contiguous().view(-1, 1)\<close> on the unsqueezed tensor: two sizes are
  given, so a tensor of more than two dimensions raises.\<close>

definition expand_view :: "nat \<Rightarrow> tensor \<Rightarrow> error + real list" where
  "expand_view b t =
     (if length (shape t) \<le> 2 then Inr (concat (replicate b (vals t))) else Inl ShapeError)"

subsection \<open>Lines 213-215: the attention mask buffer\<close>

definition init_mask :: "nat \<Rightarrow> nat \<Rightarrow> bool list list option \<Rightarrow> error + bool list list" where
  "init_mask b width m =
     (case m of
        None \<Rightarrow> Inr (replicate b (replicate width True))
      | Some rows \<Rightarrow>
          if (length rows = b \<or> length rows = 1)
             \<and> list_all (\<lambda>r. length r \<le> width \<or> length r = 1) rows
          then Inr (map (\<lambda>r. take width (r @ replicate (width - length r) True))
                     (if length rows = b then rows else replicate b (hd rows)))
          else Inl ShapeError)"

subsection \<open>Lines 265-294: from logits to the sampled indices\<close>

definition logits_token :: "('a, 'h) call \<Rightarrow> int list list list \<Rightarrow> int list list" where
  "logits_token c cur =
     (if infer_text c then map (\<lambda>row. map (\<lambda>tok. tok ! 0) (drop (start_idx c) row)) cur
      else concat (map (\<lambda>row. map (\<lambda>k. map (\<lambda>tok. tok ! k) (drop (start_idx c) row))
                                  [0..<num_vq c]) cur))"

text \<open>Float division of a finite logit (division by zero gives an infinity or NaN).\<close>

definition fdiv :: "real \<Rightarrow> real \<Rightarrow> logit" where
  "fdiv x t = (if t \<noteq> 0 then Val (x / t) else if 0 < x then PosInf else if x < 0 then NegInf else NaN)"

text \<open>\<open>logits / temperature\<close> with the broadcasting of a \<open>(R, V)\<close> by a \<open>(T, 1)\<close> tensor.\<close>

definition div_temperature :: "real list list \<Rightarrow> real list \<Rightarrow> error + logit list list" where
  "div_temperature logits temp =
     (if length temp = length logits then Inr (map2 (\<lambda>row t. map (\<lambda>x. fdiv x t) row) logits temp)
      else if length temp = 1 then Inr (map (\<lambda>row. map (\<lambda>x. fdiv x (hd temp)) row) logits)
      else if length logits = 1 then Inr (map (\<lambda>t. map (\<lambda>x. fdiv x t) (hd logits)) temp)
      else Inl ShapeError)"

definition eos_values :: "eos \<Rightarrow> int list" where
  "eos_values e = (case e of EosInt k \<Rightarrow> [k] | EosTensor ks \<Rightarrow> ks)"

text \<open>A Python index into a dimension of size \<open>n\<close>.\<close>

definition norm_index :: "nat \<Rightarrow> int \<Rightarrow> nat option" where
  "norm_index n k =
     (if 0 \<le> k \<and> k < int n then Some (nat k)
      else if - int n \<le> k \<and> k < 0 then Some (nat (int n + k))
      else None)"

fun set_cols :: "int list \<Rightarrow> logit list \<Rightarrow> error + logit list" where
  "set_cols [] row = Inr row"
| "set_cols (k # ks) row =
     (case norm_index (length row) k of
        None \<Rightarrow> Inl IndexError
      | Some j \<Rightarrow> set_cols ks (row[j := NegInf]))"

text \<open>\<open>logits[:, eos_token] = -torch.inf\<close>.\<close>

definition suppress_eos :: "eos \<Rightarrow> logit list list \<Rightarrow> error + logit list list" where
  "suppress_eos e logits = collect (map (set_cols (eos_values e)) logits)"

text \<open>Lines 277-288.\<close>

definition pipeline ::
  "('a, 'h) call \<Rightarrow> nat \<Rightarrow> real list \<Rightarrow> int list list \<Rightarrow> real list list \<Rightarrow> error + logit list list" where
  "pipeline c i temp toks raw =
     (case div_temperature raw temp of
        Inl e \<Rightarrow> Inl e
      | Inr l0 \<Rightarrow>
          let l1 = foldl (\<lambda>l p. p toks l) l0 (LogitsProcessors c);
              l2 = foldl (\<lambda>l w. w toks l) l1 (LogitsWarpers c)
          in if i < min_new_token c then suppress_eos (eos_token c) l2 else Inr l2)"

definition wexp :: "logit \<Rightarrow> real" where
  "wexp x = (case x of Val v \<Rightarrow> exp v | _ \<Rightarrow> 0)"

text \<open>\<open>F.softmax\<close> of one row; \<open>None\<close> is a row of NaN, which is what a NaN, a \<open>+inf\<close> or
  a row of \<open>-inf\<close> only gives.\<close>

definition softmax :: "logit list \<Rightarrow> real list option" where
  "softmax xs =
     (if NaN \<in> set xs \<or> PosInf \<in> set xs \<or> list_all (\<lambda>x. x = NegInf) xs then None
      else Some (map (\<lambda>x. wexp x / sum_list (map wexp xs)) xs))"

text \<open>\<open>torch.multinomial(scores, num_samples=1)\<close>: it raises on a NaN, and draws one index
  for each row otherwise.\<close>

definition multinomial :: "(nat \<Rightarrow> real list \<Rightarrow> nat) \<Rightarrow> real list option list \<Rightarrow> error + nat list" where
  "multinomial d scores =
     (if None \<in> set scores then Inl SamplingError
      else Inr (map2 (\<lambda>r ws. d r (the ws)) [0..<length scores] scores))"

definition sample_next ::
  "('a, 'h) call \<Rightarrow> nat \<Rightarrow> real list \<Rightarrow> int list list list \<Rightarrow> real list list \<Rightarrow> error + nat list" where
  "sample_next c i temp cur raw =
     (case pipeline c i temp (logits_token c cur) raw of
        Inl e \<Rightarrow> Inl e
      | Inr logits \<Rightarrow> multinomial (draw c i) (map softmax logits))"

subsection \<open>Lines 296-311: completion detection, append, emitted length\<close>

text \<open>\<open>(idx_next == eos_token).any(1)\<close> for one row of \<open>idx_next\<close>, with the broadcasting of
  a 1-dim marker against the row.\<close>

definition eos_any :: "eos \<Rightarrow> int list \<Rightarrow> error + bool" where
  "eos_any e row =
     (case e of
        EosInt k \<Rightarrow> Inr (k \<in> set row)
      | EosTensor ks \<Rightarrow>
          if length ks = length row then Inr (list_ex (\<lambda>(x, k). x = k) (zip row ks))
          else if length ks = 1 then Inr (hd ks \<in> set row)
          else if length row = 1 then Inr (hd row \<in> set ks)
          else Inl ShapeError)"

text \<open>\<open>idx_next\<close> as the \<open>(b, num_vq)\<close> view of audio mode, or the \<open>(b, 1)\<close> tensor of text mode.\<close>

definition idx_rows :: "('a, 'h) call \<Rightarrow> nat \<Rightarrow> nat list \<Rightarrow> error + int list list" where
  "idx_rows c b idx =
     (if infer_text c then
        (if length idx = b then Inr (map (\<lambda>t. [int t]) idx) else Inl ShapeError)
      else
        (if 0 < num_vq c \<and> length idx = b * num_vq c
         then Inr (map (\<lambda>r. map int (take (num_vq c) (drop (r * num_vq c) idx))) [0..<b])
         else Inl ShapeError))"

definition finish_or :: "('a, 'h) call \<Rightarrow> int list list \<Rightarrow> error + bool list" where
  "finish_or c rows = collect (map (eos_any (eos_token c)) rows)"

text \<open>The token row that \<open>torch.cat\<close> appends to a batch row.\<close>

definition new_rows :: "('a, 'h) call \<Rightarrow> int list list \<Rightarrow> int list list" where
  "new_rows c rows =
     (if infer_text c then map (\<lambda>row. replicate (num_vq c) (hd row)) rows else rows)"

definition append_next ::
  "('a, 'h) call \<Rightarrow> ('a, 'h) state \<Rightarrow> nat list \<Rightarrow> error + ('a, 'h) state" where
  "append_next c s idx =
     (case idx_rows c (length (inputs_ids s)) idx of
        Inl e \<Rightarrow> Inl e
      | Inr rows \<Rightarrow>
          (case finish_or c rows of
             Inl e \<Rightarrow> Inl e
           | Inr fo \<Rightarrow>
               let finish' = map2 (\<or>) (finish s) fo
               in Inr (s\<lparr>inputs_ids := map2 (\<lambda>row tok. row @ [tok]) (inputs_ids s) (new_rows c rows),
                         finish := finish',
                         end_idx := map2 (\<lambda>e f. if f then e else e + 1) (end_idx s) finish'\<rparr>)))"

text \<open>Lines 222-311: one forward pass, the draw and the update of the progress state.\<close>

definition model_out :: "('a, 'h) call \<Rightarrow> nat \<Rightarrow> ('a, 'h) state \<Rightarrow> ('a, 'h) gpt_out" where
  "model_out c i s =
     forward c i (inputs_ids s) (map (take (seq_len (inputs_ids s))) (attention_mask_cache s))"

definition idx_next :: "('a, 'h) call \<Rightarrow> nat \<Rightarrow> ('a, 'h) state \<Rightarrow> error + nat list" where
  "idx_next c i s =
     sample_next c i (temperature_rows s) (inputs_ids s) (head_logits (model_out c i s))"

definition advance :: "('a, 'h) call \<Rightarrow> nat \<Rightarrow> ('a, 'h) state \<Rightarrow> error + ('a, 'h) state" where
  "advance c i s =
     (let out = model_out c i s;
          s1 = s\<lparr>attentions := attentions s @ [attn out],
                 hiddens := (if return_hidden c then hiddens s @ [hidden_last out] else hiddens s)\<rparr>
      in case idx_next c i s of
           Inl e \<Rightarrow> Inl e
         | Inr idx \<Rightarrow> append_next c s1 idx)"

subsection \<open>Lines 312-348: snapshots and the final payload\<close>

text \<open>\<open>[inputs_ids[idx, start_idx: start_idx+i] for idx, i in enumerate(end_idx.int())]\<close>,
  then column 0 in text mode.\<close>

definition truncated_ids :: "('a, 'h) call \<Rightarrow> ('a, 'h) state \<Rightarrow> row_ids list" where
  "truncated_ids c s =
     map2 (\<lambda>row e. let y = take e (drop (start_idx c) row)
                   in if infer_text c then TextIds (map (\<lambda>tok. tok ! 0) y) else Codes y)
          (inputs_ids s) (end_idx s)"

text \<open>\<open>torch.stack(hiddens, 1)\<close> raises on an empty list; row \<open>idx\<close> of the stack is then cut
  to \<open>end_idx[idx]\<close>.\<close>

definition truncated_hiddens :: "('a, 'h) state \<Rightarrow> error + 'h list list" where
  "truncated_hiddens s =
     (if hiddens s = [] then Inl EmptyStack
      else Inr (map2 (\<lambda>r e. take e (map (\<lambda>h. h ! r) (hiddens s)))
                  [0..<length (end_idx s)] (end_idx s)))"

text \<open>Python's \<open>bool()\<close> of a tensor: only a tensor of one element has a truth value.\<close>

definition truthy :: "nat list \<Rightarrow> error + bool" where
  "truthy t = (case t of [x] \<Rightarrow> Inr (x \<noteq> 0) | _ \<Rightarrow> Inl AmbiguousBool)"

text \<open>Lines 315-325.\<close>

definition snapshot :: "('a, 'h) call \<Rightarrow> ('a, 'h) state \<Rightarrow> error + ('a, 'h) payload" where
  "snapshot c s =
     (case (if return_hidden c then truncated_hiddens s else Inr [[]]) of
        Inl e \<Rightarrow> Inl e
      | Inr y_hiddens \<Rightarrow>
          Inr \<lparr>ids = truncated_ids c s, p_attentions = attentions s, p_hiddens = y_hiddens\<rparr>)"

text \<open>One iteration of the loop; the flag says whether it ends in \<open>break\<close>. The \<open>continue\<close>
  of line 314 skips the test of line 327.\<close>

definition body ::
  "('a, 'h) call \<Rightarrow> nat \<Rightarrow> ('a, 'h) state \<Rightarrow> error + (('a, 'h) state \<times> bool)" where
  "body c i s =
     (case advance c i s of
        Inl e \<Rightarrow> Inl e
      | Inr s' \<Rightarrow>
          if stream c then
            (case truthy (map (\<lambda>e. e mod 24) (end_idx s')) of
               Inl e \<Rightarrow> Inl e
             | Inr t \<Rightarrow>
                 if t \<and> \<not> all_finished (finish s') then Inr (s', False)
                 else (case snapshot c s' of
                         Inl e \<Rightarrow> Inl e
                       | Inr y \<Rightarrow> Inr (s'\<lparr>yielded := yielded s' @ [y]\<rparr>, all_finished (finish s'))))
          else Inr (s', all_finished (finish s')))"

text \<open>\<open>for i in range(max_new_token)\<close>, from iteration \<open>i\<close> with \<open>n\<close> iterations left. An
  exception ends the generator; what was yielded before it stays yielded.\<close>

fun loop ::
  "('a, 'h) call \<Rightarrow> nat \<Rightarrow> nat \<Rightarrow> ('a, 'h) state \<Rightarrow> error option \<times> ('a, 'h) state" where
  "loop c i 0 s = (None, s)"
| "loop c i (Suc n) s =
     (case body c i s of
        Inl e \<Rightarrow> (Some e, s)
      | Inr (s', brk) \<Rightarrow> if brk then (None, s') else loop c (Suc i) n s')"

text \<open>Lines 204-219, after the in-place \<open>unsqueeze_\<close>.\<close>

definition init :: "('a, 'h) call \<Rightarrow> error + ('a, 'h) state" where
  "init c =
     (let b = length (prompt_ids c)
      in case expand_view b (unsqueeze0 (temperature c)) of
           Inl e \<Rightarrow> Inl e
         | Inr temp \<Rightarrow>
             (case init_mask b (start_idx c + max_new_token c) (attention_mask c) of
                Inl e \<Rightarrow> Inl e
              | Inr cache \<Rightarrow>
                  Inr \<lparr>inputs_ids = prompt_ids c, finish = replicate b False,
                       end_idx = replicate b 0, attentions = [], hiddens = [],
                       temperature_rows = temp, attention_mask_cache = cache, yielded = []\<rparr>))"

text \<open>Lines 332-348.\<close>

definition finalize :: "('a, 'h) call \<Rightarrow> tensor \<Rightarrow> ('a, 'h) state \<Rightarrow> ('a, 'h) outcome" where
  "finalize c t s =
     (case (if return_hidden c then truncated_hiddens s else Inr (hiddens s)) of
        Inl e \<Rightarrow> \<lparr>emitted = yielded s, raised = Some e, warnings = [], temperature_after = t\<rparr>
      | Inr hs \<Rightarrow>
          \<lparr>emitted = yielded s
             @ [\<lparr>ids = truncated_ids c s, p_attentions = attentions s, p_hiddens = hs\<rparr>],
           raised = None,
           warnings = (if all_finished (finish s) then [] else [IncompleteResult (max_new_token c)]),
           temperature_after = t\<rparr>)"

definition generate :: "('a, 'h) call \<Rightarrow> ('a, 'h) outcome" where
  "generate c =
     (let t = unsqueeze0 (temperature c)
      in case init c of
           Inl e \<Rightarrow> \<lparr>emitted = [], raised = Some e, warnings = [], temperature_after = t\<rparr>
         | Inr s0 \<Rightarrow>
             (case loop c 0 (max_new_token c) s0 of
                (Some e, s) \<Rightarrow>
                  \<lparr>emitted = yielded s, raised = Some e, warnings = [], temperature_after = t\<rparr>
              | (None, s) \<Rightarrow> finalize c t s))"

subsection \<open>The states the loop reaches\<close>

text \<open>\<open>iter c i s brk\<close>: the loop of the call \<open>c\<close> has run \<open>i\<close> iterations without an
  exception, \<open>s\<close> holds its variables after them, and \<open>brk\<close> says whether the last one ended
  in \<open>break\<close>.\<close>

inductive iter :: "('a, 'h) call \<Rightarrow> nat \<Rightarrow> ('a, 'h) state \<Rightarrow> bool \<Rightarrow> bool" for c where
  iter_init: "init c = Inr s \<Longrightarrow> iter c 0 s False"
| iter_step: "iter c i s False \<Longrightarrow> i < max_new_token c \<Longrightarrow> body c i s = Inr (s', brk)
     \<Longrightarrow> iter c (Suc i) s' brk"

subsection \<open>The contract of the random draw\<close>

text \<open>\<open>torch.multinomial\<close> returns an index of the row, and never one of weight zero
  (when the row has a positive weight at all).\<close>

definition sound_draw :: "(nat \<Rightarrow> nat \<Rightarrow> real list \<Rightarrow> nat) \<Rightarrow> bool" where
  "sound_draw d \<longleftrightarrow>
     (\<forall>i r ws. (\<exists>j < length ws. 0 < ws ! j) \<longrightarrow> d i r ws < length ws \<and> 0 < ws ! d i r ws)"

subsection \<open>The order of the sampling chain, as the specification words it\<close>



subsection \<open>Concrete calls\<close>

text \<open>A draw that takes the first index of positive weight.\<close>

definition first_positive :: "real list \<Rightarrow> nat" where
  "first_positive ws = length (takeWhile (\<lambda>w. \<not> 0 < w) ws)"

text \<open>An audio call of one row and one codebook over a vocabulary of two tokens, whose
  model gives both tokens the same logit: the draw takes token 0, which is the end marker.\<close>

definition demo :: "(unit, unit) call" where
  "demo =
     \<lparr>forward = (\<lambda>i cur mask. \<lparr>attn = (), hidden_last = map (\<lambda>_. ()) cur,
                                  head_logits = map (\<lambda>_. [0, 0]) cur\<rparr>),
      draw = (\<lambda>i r ws. first_positive ws),
      num_vq = 1, prompt_ids = [[[5]]], temperature = \<lparr>shape = [1], vals = [1]\<rparr>,
      eos_token = EosInt 0, attention_mask = None, max_new_token = 2, min_new_token = 0,
      LogitsWarpers = [], LogitsProcessors = [], infer_text = False, return_hidden = False,
      stream = False\<rparr>"

text \<open>The loop variables of such a call: the token rows, the flags, the counters and the
  number of forward passes so far.\<close>

definition demo_state ::
  "int list list list \<Rightarrow> bool list \<Rightarrow> nat list \<Rightarrow> nat \<Rightarrow> bool list \<Rightarrow> (unit, unit) state" where
  "demo_state toks fin e n buf =
     \<lparr>inputs_ids = toks, finish = fin, end_idx = e, attentions = replicate n (), hiddens = [],
      temperature_rows = map (\<lambda>_. 1) toks,
      attention_mask_cache = map (\<lambda>_. buf) toks, yielded = []\<rparr>"


section \<open>Properties\<close>

subsection \<open>What one iteration does\<close>

lemma collect_Inr: "collect xs = Inr ys \<Longrightarrow> xs = map Inr ys"
  by (induction xs arbitrary: ys) (auto split: sum.splits)

lemma collect_length: "collect xs = Inr ys \<Longrightarrow> length ys = length xs"
  by (drule collect_Inr) simp

lemma collect_map_Inr: "collect (map Inr ys) = Inr ys"
  by (induction ys) auto

lemma idx_rows_length: "idx_rows c b idx = Inr rows \<Longrightarrow> length rows = b"
  by (auto simp: idx_rows_def split: if_splits)

lemma finish_or_length: "finish_or c rows = Inr fo \<Longrightarrow> length fo = length rows"
  by (auto simp: finish_or_def dest: collect_length)

lemma append_next_Inr:
  assumes "append_next c s idx = Inr s'"
  shows "\<exists>rows fo. idx_rows c (length (inputs_ids s)) idx = Inr rows \<and> finish_or c rows = Inr fo
           \<and> s' = s\<lparr>inputs_ids := map2 (\<lambda>row tok. row @ [tok]) (inputs_ids s) (new_rows c rows),
                     finish := map2 (\<or>) (finish s) fo,
                     end_idx := map2 (\<lambda>e f. if f then e else e + 1) (end_idx s)
                                  (map2 (\<or>) (finish s) fo)\<rparr>"
  using assms by (auto simp: append_next_def Let_def split: sum.splits)

lemma advance_Inr:
  assumes "advance c i s = Inr s'"
  shows "\<exists>idx rows fo. idx_next c i s = Inr idx
           \<and> idx_rows c (length (inputs_ids s)) idx = Inr rows \<and> finish_or c rows = Inr fo
           \<and> inputs_ids s' = map2 (\<lambda>row tok. row @ [tok]) (inputs_ids s) (new_rows c rows)
           \<and> finish s' = map2 (\<or>) (finish s) fo
           \<and> end_idx s' = map2 (\<lambda>e f. if f then e else e + 1) (end_idx s) (finish s')
           \<and> attentions s' = attentions s @ [attn (model_out c i s)]
           \<and> hiddens s' = (if return_hidden c then hiddens s @ [hidden_last (model_out c i s)]
                            else hiddens s)
           \<and> temperature_rows s' = temperature_rows s
           \<and> attention_mask_cache s' = attention_mask_cache s
           \<and> yielded s' = yielded s"
proof -
  from assms obtain idx where i: "idx_next c i s = Inr idx"
    and a: "append_next c
              (s\<lparr>attentions := attentions s @ [attn (model_out c i s)],
                 hiddens := (if return_hidden c then hiddens s @ [hidden_last (model_out c i s)]
                             else hiddens s)\<rparr>) idx = Inr s'"
    by (auto simp: advance_def Let_def split: sum.splits)
  from append_next_Inr [OF a] i show ?thesis by auto
qed

lemma body_Inr:
  assumes "body c i s = Inr (s', brk)"
  shows "\<exists>s1. advance c i s = Inr s1 \<and> brk = all_finished (finish s1)
           \<and> (s' = s1 \<or> (stream c \<and> (\<exists>y. snapshot c s1 = Inr y \<and> s' = s1\<lparr>yielded := yielded s1 @ [y]\<rparr>)))"
  using assms by (auto simp: body_def split: sum.splits if_splits)

lemma init_Inr:
  assumes "init c = Inr s"
  shows "inputs_ids s = prompt_ids c \<and> finish s = replicate (length (prompt_ids c)) False
     \<and> end_idx s = replicate (length (prompt_ids c)) 0 \<and> attentions s = [] \<and> hiddens s = []
     \<and> yielded s = []
     \<and> expand_view (length (prompt_ids c)) (unsqueeze0 (temperature c)) = Inr (temperature_rows s)
     \<and> init_mask (length (prompt_ids c)) (start_idx c + max_new_token c) (attention_mask c)
          = Inr (attention_mask_cache s)"
  using assms by (auto simp: init_def Let_def split: sum.splits)

lemma body_fields:
  assumes "body c i s = Inr (s', brk)"
  shows "\<exists>s1. advance c i s = Inr s1 \<and> brk = all_finished (finish s') 
     \<and> inputs_ids s' = inputs_ids s1 \<and> finish s' = finish s1 \<and> end_idx s' = end_idx s1
     \<and> attentions s' = attentions s1 \<and> hiddens s' = hiddens s1
     \<and> temperature_rows s' = temperature_rows s1
     \<and> attention_mask_cache s' = attention_mask_cache s1"
  using body_Inr [OF assms] by auto

text \<open>Shapes kept by the loop.\<close>

lemma iter_lengths:
  "iter c i s brk \<Longrightarrow> length (inputs_ids s) = length (prompt_ids c)
     \<and> length (finish s) = length (prompt_ids c) \<and> length (end_idx s) = length (prompt_ids c)"
proof (induction rule: iter.induct)
  case (iter_init s)
  then show ?case by (auto dest: init_Inr)
next
  case (iter_step i s s' brk)
  from body_fields [OF iter_step.hyps(3)] obtain s1 where
    a: "advance c i s = Inr s1" and e: "inputs_ids s' = inputs_ids s1" "finish s' = finish s1"
      "end_idx s' = end_idx s1" by auto
  from advance_Inr [OF a] obtain idx rows fo where
    r: "idx_rows c (length (inputs_ids s)) idx = Inr rows" "finish_or c rows = Inr fo"
    and u: "inputs_ids s1 = map2 (\<lambda>row tok. row @ [tok]) (inputs_ids s) (new_rows c rows)"
       "finish s1 = map2 (\<or>) (finish s) fo"
       "end_idx s1 = map2 (\<lambda>e f. if f then e else e + 1) (end_idx s) (finish s1)"
    by auto
  have "length rows = length (prompt_ids c)"
    using r(1) iter_step.IH by (auto dest: idx_rows_length)
  moreover from this have "length fo = length (prompt_ids c)"
    using r(2) by (auto dest: finish_or_length)
  moreover have "length (new_rows c rows) = length rows" by (simp add: new_rows_def)
  ultimately show ?case using iter_step.IH e u by simp
qed

lemma loop_iter:
  assumes "iter c i s False" "i + n = max_new_token c" "loop c i n s = (r, s')"
  shows "\<exists>j brk. j \<le> max_new_token c \<and> iter c j s' brk
           \<and> (case r of None \<Rightarrow> brk \<or> j = max_new_token c
               | Some e \<Rightarrow> \<not> brk \<and> j < max_new_token c \<and> body c j s' = Inl e)"
  using assms
proof (induction n arbitrary: i s)
  case 0
  then show ?case by auto
next
  case (Suc n)
  show ?case
  proof (cases "body c i s")
    case (Inl e)
    with Suc.prems show ?thesis by (intro exI [of _ i] exI [of _ False]) auto
  next
    case (Inr p)
    obtain s1 b1 where p: "p = (s1, b1)" by (cases p)
    have it: "iter c (Suc i) s1 b1"
      using Suc.prems Inr p by (intro iter_step [of c i s]) auto
    show ?thesis
    proof (cases b1)
      case True
      with Suc.prems Inr p it show ?thesis
        by (intro exI [of _ "Suc i"] exI [of _ True]) auto
    next
      case False
      with Suc.prems Inr p have "loop c (Suc i) n s1 = (r, s')" by simp
      from Suc.IH [OF _ _ this] it False Suc.prems(2) show ?thesis by simp
    qed
  qed
qed

lemma iter_end_idx:
  "iter c i s brk \<Longrightarrow> i \<le> max_new_token c \<and>
     (\<forall>r < length (prompt_ids c). end_idx s ! r \<le> i \<and> (\<not> finish s ! r \<longrightarrow> end_idx s ! r = i))"
proof (induction rule: iter.induct)
  case (iter_init s)
  then show ?case by (auto dest: init_Inr)
next
  case (iter_step i s s' brk)
  note len = iter_lengths [OF iter_step.hyps(1)]
  from body_fields [OF iter_step.hyps(3)] obtain s1 where
    a: "advance c i s = Inr s1" and e: "finish s' = finish s1" "end_idx s' = end_idx s1" by auto
  from advance_Inr [OF a] obtain idx rows fo where
    r: "idx_rows c (length (inputs_ids s)) idx = Inr rows" "finish_or c rows = Inr fo"
    and u: "finish s1 = map2 (\<or>) (finish s) fo"
       "end_idx s1 = map2 (\<lambda>e f. if f then e else e + 1) (end_idx s) (finish s1)"
    by auto
  have lr: "length rows = length (prompt_ids c)"
    using r(1) len by (auto dest: idx_rows_length)
  then have lf: "length fo = length (prompt_ids c)"
    using r(2) by (auto dest: finish_or_length)
  show ?case using iter_step.IH iter_step.hyps(2) len lf e u by auto
qed

subsection \<open>The temperature tensor\<close>

text \<open>
  Claim C9. \<open>generate\<close> changes the caller's temperature tensor in place: whatever the call
  does afterwards (also when it raises), the tensor the caller passed has one more leading
  dimension of size 1 than before, its values unchanged, so it differs from the tensor
  passed.
\<close>

theorem temperature_mutated_in_place:
  "temperature_after (generate c) = unsqueeze0 (temperature c)
   \<and> shape (temperature_after (generate c)) = 1 # shape (temperature c)
   \<and> vals (temperature_after (generate c)) = vals (temperature c)
   \<and> length (shape (temperature_after (generate c))) = Suc (length (shape (temperature c)))
   \<and> temperature_after (generate c) \<noteq> temperature c"
proof -
  have t: "temperature_after (generate c) = unsqueeze0 (temperature c)"
    by (simp add: generate_def finalize_def Let_def split: sum.splits prod.splits option.splits)
  have n: "unsqueeze0 (temperature c) \<noteq> temperature c"
  proof
    assume "unsqueeze0 (temperature c) = temperature c"
    then have "shape (unsqueeze0 (temperature c)) = shape (temperature c)" by simp
    then show False by (simp add: unsqueeze0_def)
  qed
  show ?thesis using t n by (simp add: unsqueeze0_def)
qed

subsection \<open>Running the concrete calls\<close>

lemmas eval_defs = init_def expand_view_def unsqueeze0_def init_mask_def start_idx_def seq_len_def
  idx_next_def model_out_def sample_next_def pipeline_def logits_token_def div_temperature_def
  fdiv_def suppress_eos_def eos_values_def norm_index_def softmax_def wexp_def multinomial_def
  first_positive_def advance_def append_next_def idx_rows_def finish_or_def eos_any_def
  new_rows_def body_def truthy_def snapshot_def truncated_ids_def truncated_hiddens_def
  all_finished_def finalize_def generate_def Let_def





text \<open>The same call with one token required: step 0 cannot take the marker.\<close>

lemma demo_min_init:
  "init (demo\<lparr>min_new_token := 1\<rparr>) = Inr (demo_state [[[5]]] [False] [0] 0 [True, True, True])"
  by (simp add: demo_def demo_state_def eval_defs)

lemma demo_min_idx_next:
  "idx_next (demo\<lparr>min_new_token := 1\<rparr>) 0 (demo_state [[[5]]] [False] [0] 0 [True, True, True])
     = Inr [1]"
  by (simp add: demo_def demo_state_def eval_defs)

lemma demo_min_body0:
  "body (demo\<lparr>min_new_token := 1\<rparr>) 0 (demo_state [[[5]]] [False] [0] 0 [True, True, True])
     = Inr (demo_state [[[5], [1]]] [False] [1] 1 [True, True, True], False)"
  by (simp add: demo_def demo_state_def eval_defs)

lemma demo_min_idx_next1:
  "idx_next (demo\<lparr>min_new_token := 1\<rparr>) 1 (demo_state [[[5], [1]]] [False] [1] 1 [True, True, True])
     = Inr [0]"
  by (simp add: demo_def demo_state_def eval_defs)

lemma demo_min_body1:
  "body (demo\<lparr>min_new_token := 1\<rparr>) 1 (demo_state [[[5], [1]]] [False] [1] 1 [True, True, True])
     = Inr (demo_state [[[5], [1], [0]]] [True] [1] 2 [True, True, True], True)"
  by (simp add: demo_def demo_state_def eval_defs numeral_2_eq_2)

lemma demo_min_iter1:
  "iter (demo\<lparr>min_new_token := 1\<rparr>) 1 (demo_state [[[5], [1]]] [False] [1] 1 [True, True, True]) False"
proof -
  have "iter (demo\<lparr>min_new_token := 1\<rparr>) 0 (demo_state [[[5]]] [False] [0] 0 [True, True, True]) False"
    by (rule iter_init) (rule demo_min_init)
  from iter_step [OF this _ demo_min_body0] show ?thesis by (simp add: demo_def)
qed

subsection \<open>The counters and the mask buffer\<close>

lemma init_mask_None:
  "init_mask b w None = Inr m \<Longrightarrow> m = replicate b (replicate w True)"
  by (simp add: init_mask_def)

lemma init_mask_Some:
  assumes "init_mask b w (Some rows) = Inr m" "length rows = b" "r < b"
  shows "length m = b \<and> length (m ! r) = w
     \<and> (\<forall>p < w. m ! r ! p = (if p < length (rows ! r) then rows ! r ! p else True))"
proof -
  from assms have m: "m = map (\<lambda>r. take w (r @ replicate (w - length r) True)) rows"
    and ok: "list_all (\<lambda>r. length r \<le> w \<or> length r = 1) rows"
    by (auto simp: init_mask_def split: if_splits)
  have "length (rows ! r) \<le> w \<or> length (rows ! r) = 1"
    using ok assms(2,3) by (simp add: list_all_length)
  then show ?thesis using m assms(2,3) by (auto simp: nth_append)
qed

lemma iter_cache:
  "iter c i s brk \<Longrightarrow> \<exists>s0. init c = Inr s0 \<and> attention_mask_cache s = attention_mask_cache s0
     \<and> temperature_rows s = temperature_rows s0"
proof (induction rule: iter.induct)
  case (iter_init s)
  then show ?case by simp
next
  case (iter_step i s s' brk)
  from body_fields [OF iter_step.hyps(3)] obtain s1 where
    a: "advance c i s = Inr s1" and e: "attention_mask_cache s' = attention_mask_cache s1"
      "temperature_rows s' = temperature_rows s1"
    by auto
  from advance_Inr [OF a] e iter_step.IH show ?case by auto
qed

text \<open>
  Claim C2. At every state the loop reaches, and for every batch row \<open>r\<close>, the counter
  \<open>end_idx\<close> of the row is at most the number of iterations run, hence at most
  \<open>max_new_token\<close>, and equal to that number while the row is unfinished. An iteration
  never decreases it: it adds one when the row is unfinished and the step does not sample
  the end marker for it, and leaves the counter unchanged from the step at which the marker
  is first sampled, since the row is finished from then on.
\<close>

theorem end_idx_invariant:
  assumes "iter c i s brk" and "r < length (prompt_ids c)"
  shows "end_idx s ! r \<le> max_new_token c \<and> end_idx s ! r \<le> i
     \<and> (\<not> finish s ! r \<longrightarrow> end_idx s ! r = i)
     \<and> (\<forall>s' brk'. \<not> brk \<and> i < max_new_token c \<and> body c i s = Inr (s', brk') \<longrightarrow>
          (\<exists>idx rows fo. idx_next c i s = Inr idx
             \<and> idx_rows c (length (prompt_ids c)) idx = Inr rows \<and> finish_or c rows = Inr fo
             \<and> finish s' ! r = (finish s ! r \<or> fo ! r)
             \<and> end_idx s ! r \<le> end_idx s' ! r
             \<and> end_idx s' ! r = (if finish s ! r \<or> fo ! r then end_idx s ! r else end_idx s ! r + 1)))"
proof -
  note len = iter_lengths [OF assms(1)]
  from iter_end_idx [OF assms(1)] assms(2) have i: "i \<le> max_new_token c"
    "end_idx s ! r \<le> i" "\<not> finish s ! r \<longrightarrow> end_idx s ! r = i" by auto
  then have bound: "end_idx s ! r \<le> max_new_token c" by simp
  have step: "\<exists>idx rows fo. idx_next c i s = Inr idx
             \<and> idx_rows c (length (prompt_ids c)) idx = Inr rows \<and> finish_or c rows = Inr fo
             \<and> finish s' ! r = (finish s ! r \<or> fo ! r)
             \<and> end_idx s ! r \<le> end_idx s' ! r
             \<and> end_idx s' ! r = (if finish s ! r \<or> fo ! r then end_idx s ! r else end_idx s ! r + 1)"
    if b: "body c i s = Inr (s', brk')" for s' brk'
  proof -
    from body_fields [OF b] obtain s1 where
      a: "advance c i s = Inr s1" and e: "finish s' = finish s1" "end_idx s' = end_idx s1" by auto
    from advance_Inr [OF a] obtain idx rows fo where
      n: "idx_next c i s = Inr idx"
      and r: "idx_rows c (length (inputs_ids s)) idx = Inr rows" "finish_or c rows = Inr fo"
      and u: "finish s1 = map2 (\<or>) (finish s) fo"
         "end_idx s1 = map2 (\<lambda>e f. if f then e else e + 1) (end_idx s) (finish s1)"
      by auto
    have lr: "length rows = length (prompt_ids c)"
      using r(1) len by (auto dest: idx_rows_length)
    then have lf: "length fo = length (prompt_ids c)"
      using r(2) by (auto dest: finish_or_length)
    have f: "finish s' ! r = (finish s ! r \<or> fo ! r)"
      using e u len lf assms(2) by simp
    have "end_idx s' ! r = (if finish s' ! r then end_idx s ! r else end_idx s ! r + 1)"
      using e u len lf assms(2) by simp
    with f n r len show ?thesis by auto
  qed
  from bound i(2,3) step show ?thesis by blast
qed

theorem end_idx_invariant_witness:
  "iter (demo\<lparr>min_new_token := 1\<rparr>) 1 (demo_state [[[5], [1]]] [False] [1] 1 [True, True, True]) False
   \<and> 0 < length (prompt_ids (demo\<lparr>min_new_token := 1\<rparr>))
   \<and> end_idx (demo_state [[[5], [1]]] [False] [1] 1 [True, True, True]) ! 0 = 1
   \<and> body (demo\<lparr>min_new_token := 1\<rparr>) 1 (demo_state [[[5], [1]]] [False] [1] 1 [True, True, True])
       = Inr (demo_state [[[5], [1], [0]]] [True] [1] 2 [True, True, True], True)
   \<and> (\<exists>idx rows fo.
         idx_next (demo\<lparr>min_new_token := 1\<rparr>) 1
             (demo_state [[[5], [1]]] [False] [1] 1 [True, True, True]) = Inr idx
         \<and> idx_rows (demo\<lparr>min_new_token := 1\<rparr>) 1 idx = Inr rows
         \<and> finish_or (demo\<lparr>min_new_token := 1\<rparr>) rows = Inr fo
         \<and> fo ! 0
         \<and> end_idx (demo_state [[[5], [1], [0]]] [True] [1] 2 [True, True, True]) ! 0 = 1)"
proof -
  let ?c = "demo\<lparr>min_new_token := 1\<rparr>"
  let ?s = "demo_state [[[5], [1]]] [False] [1] 1 [True, True, True]"
  let ?s' = "demo_state [[[5], [1], [0]]] [True] [1] 2 [True, True, True]"
  have r: "0 < length (prompt_ids ?c)" by (simp add: demo_def)
  have m: "1 < max_new_token ?c" by (simp add: demo_def)
  from end_idx_invariant [OF demo_min_iter1 r] have
    "\<forall>s' brk'. \<not> False \<and> 1 < max_new_token ?c \<and> body ?c 1 ?s = Inr (s', brk') \<longrightarrow>
       (\<exists>idx rows fo. idx_next ?c 1 ?s = Inr idx
          \<and> idx_rows ?c (length (prompt_ids ?c)) idx = Inr rows \<and> finish_or ?c rows = Inr fo
          \<and> finish s' ! 0 = (finish ?s ! 0 \<or> fo ! 0)
          \<and> end_idx ?s ! 0 \<le> end_idx s' ! 0
          \<and> end_idx s' ! 0 = (if finish ?s ! 0 \<or> fo ! 0 then end_idx ?s ! 0 else end_idx ?s ! 0 + 1))"
    by blast
  with m demo_min_body1 obtain idx rows fo where
    "idx_next ?c 1 ?s = Inr idx" "idx_rows ?c (length (prompt_ids ?c)) idx = Inr rows"
    "finish_or ?c rows = Inr fo" "finish ?s' ! 0 = (finish ?s ! 0 \<or> fo ! 0)"
    by blast
  moreover have "length (prompt_ids ?c) = 1" by (simp add: demo_def)
  moreover have "finish ?s' ! 0" "\<not> finish ?s ! 0" "end_idx ?s ! 0 = 1" "end_idx ?s' ! 0 = 1"
    by (simp_all add: demo_state_def)
  ultimately show ?thesis using demo_min_iter1 r demo_min_body1 by auto
qed

text \<open>
  Claim C8. The attention mask buffer is built once, before the loop, and no iteration
  changes it: at every state the loop reaches it is the buffer of the initial state. It has
  one row for each batch row, each of length \<open>start_idx + max_new_token\<close>; a cell holds the
  value of the supplied mask where that mask has one, and is true elsewhere. For a supplied
  mask no longer than the prompt, every generated position is therefore true, whether its
  row is finished or not.
\<close>

theorem attention_mask_cache_invariant:
  assumes "iter c i s brk" and "r < length (prompt_ids c)"
    and "p < start_idx c + max_new_token c"
    and "case attention_mask c of None \<Rightarrow> True
         | Some m \<Rightarrow> length m = length (prompt_ids c) \<and> (\<forall>row \<in> set m. length row \<le> start_idx c)"
  shows "(\<exists>s0. init c = Inr s0 \<and> attention_mask_cache s = attention_mask_cache s0)
     \<and> length (attention_mask_cache s) = length (prompt_ids c)
     \<and> length (attention_mask_cache s ! r) = start_idx c + max_new_token c
     \<and> (attention_mask_cache s ! r ! p
          = (case attention_mask c of None \<Rightarrow> True
             | Some m \<Rightarrow> if p < length (m ! r) then m ! r ! p else True))
     \<and> (start_idx c \<le> p \<longrightarrow> attention_mask_cache s ! r ! p)"
proof -
  from iter_cache [OF assms(1)] obtain s0 where
    i: "init c = Inr s0" and e: "attention_mask_cache s = attention_mask_cache s0" by auto
  from init_Inr [OF i] have m: "init_mask (length (prompt_ids c)) (start_idx c + max_new_token c)
      (attention_mask c) = Inr (attention_mask_cache s0)" by simp
  show ?thesis
  proof (cases "attention_mask c")
    case None
    with m init_mask_None have "attention_mask_cache s0
        = replicate (length (prompt_ids c)) (replicate (start_idx c + max_new_token c) True)"
      by metis
    with None i e assms(2,3) show ?thesis by simp
  next
    case (Some rows)
    with assms(4) have l: "length rows = length (prompt_ids c)"
      and w: "length (rows ! r) \<le> start_idx c" using assms(2) by auto
    from init_mask_Some [OF m [unfolded Some] l assms(2)] Some i e assms(3) w
    show ?thesis by auto
  qed
qed

lemma demo_mask_init:
  "init (demo\<lparr>attention_mask := Some [[False]]\<rparr>)
     = Inr (demo_state [[[5]]] [False] [0] 0 [False, True, True])"
  by (simp add: demo_def demo_state_def eval_defs)

lemma demo_mask_body:
  "body (demo\<lparr>attention_mask := Some [[False]]\<rparr>) 0 (demo_state [[[5]]] [False] [0] 0 [False, True, True])
     = Inr (demo_state [[[5], [0]]] [True] [0] 1 [False, True, True], True)"
  by (simp add: demo_def demo_state_def eval_defs)

theorem attention_mask_cache_invariant_witness:
  "iter (demo\<lparr>attention_mask := Some [[False]]\<rparr>) 1
      (demo_state [[[5], [0]]] [True] [0] 1 [False, True, True]) True
   \<and> attention_mask (demo\<lparr>attention_mask := Some [[False]]\<rparr>) = Some [[False]]
   \<and> start_idx (demo\<lparr>attention_mask := Some [[False]]\<rparr>) = 1
   \<and> max_new_token (demo\<lparr>attention_mask := Some [[False]]\<rparr>) = 2
   \<and> length (attention_mask_cache (demo_state [[[5], [0]]] [True] [0] 1 [False, True, True]) ! 0) = 3
   \<and> attention_mask_cache (demo_state [[[5], [0]]] [True] [0] 1 [False, True, True]) ! 0 ! 1"
proof -
  let ?c = "demo\<lparr>attention_mask := Some [[False]]\<rparr>"
  let ?s = "demo_state [[[5], [0]]] [True] [0] 1 [False, True, True]"
  have "iter ?c 0 (demo_state [[[5]]] [False] [0] 0 [False, True, True]) False"
    by (rule iter_init) (rule demo_mask_init)
  from iter_step [OF this _ demo_mask_body] have it: "iter ?c 1 ?s True" by (simp add: demo_def)
  have r: "0 < length (prompt_ids ?c)" by (simp add: demo_def)
  have st: "start_idx ?c = 1" "max_new_token ?c = 2" "attention_mask ?c = Some [[False]]"
    by (simp_all add: demo_def start_idx_def seq_len_def)
  have p: "1 < start_idx ?c + max_new_token ?c" using st by simp
  have m: "case attention_mask ?c of None \<Rightarrow> True
         | Some m \<Rightarrow> length m = length (prompt_ids ?c) \<and> (\<forall>row \<in> set m. length row \<le> start_idx ?c)"
    using st by (simp add: demo_def)
  from attention_mask_cache_invariant [OF it r p m] it st show ?thesis by simp
qed

subsection \<open>Streaming with more than one row, and a loop that never runs\<close>

lemma truthy_many: "1 < length t \<Longrightarrow> truthy t = Inl AmbiguousBool"
  by (cases t rule: list.exhaust [case_names Nil Cons])
     (auto simp: truthy_def split: list.splits)

lemma advance_lengths:
  assumes "advance c i s = Inr s'" "length (finish s) = length (inputs_ids s)"
    "length (end_idx s) = length (inputs_ids s)"
  shows "length (end_idx s') = length (inputs_ids s) \<and> length (finish s') = length (inputs_ids s)"
proof -
  from advance_Inr [OF assms(1)] obtain idx rows fo where
    r: "idx_rows c (length (inputs_ids s)) idx = Inr rows" "finish_or c rows = Inr fo"
    and u: "finish s' = map2 (\<or>) (finish s) fo"
       "end_idx s' = map2 (\<lambda>e f. if f then e else e + 1) (end_idx s) (finish s')"
    by auto
  have "length rows = length (inputs_ids s)" using r(1) by (rule idx_rows_length)
  then have "length fo = length (inputs_ids s)" using r(2) by (auto dest: finish_or_length)
  with u assms(2,3) show ?thesis by simp
qed

lemma body_stream_many:
  assumes "stream c" "init c = Inr s0" "1 < length (prompt_ids c)"
  shows "\<exists>e. body c 0 s0 = Inl e \<and> (\<forall>s1. advance c 0 s0 = Inr s1 \<longrightarrow> e = AmbiguousBool)"
proof (cases "advance c 0 s0")
  case (Inl e)
  then show ?thesis by (simp add: body_def)
next
  case (Inr s1)
  from init_Inr [OF assms(2)] have l: "length (finish s0) = length (inputs_ids s0)"
    "length (end_idx s0) = length (inputs_ids s0)" "length (inputs_ids s0) = length (prompt_ids c)"
    by simp_all
  from advance_lengths [OF Inr l(1,2)] l(3) assms(3) have "1 < length (end_idx s1)" by simp
  then have "truthy (map (\<lambda>e. e mod 24) (end_idx s1)) = Inl AmbiguousBool"
    by (intro truthy_many) simp
  with Inr assms(1) show ?thesis by (simp add: body_def)
qed

text \<open>
  Claim C10. A streaming call of more than one row whose loop runs at all
  (\<open>max_new_token > 0\<close>) raises in its first iteration and yields nothing: when the forward
  pass and the draw of step 0 succeed, the test of line 313 asks for the truth value of
  \<open>end_idx % 24\<close>, a tensor of more than one element, whether or not all rows have
  finished. So a streaming call of more than one row never completes normally.
\<close>

theorem stream_batch_raises:
  assumes "stream c" and "1 < length (prompt_ids c)" and "0 < max_new_token c"
  shows "raised (generate c) \<noteq> None \<and> emitted (generate c) = []
     \<and> (\<forall>s0 s1. init c = Inr s0 \<and> advance c 0 s0 = Inr s1
           \<longrightarrow> body c 0 s0 = Inl AmbiguousBool \<and> raised (generate c) = Some AmbiguousBool)"
proof (cases "init c")
  case (Inl e)
  then show ?thesis by (simp add: generate_def Let_def)
next
  case (Inr s0)
  from assms(3) obtain n where n: "max_new_token c = Suc n" by (cases "max_new_token c") auto
  from body_stream_many [OF assms(1) Inr assms(2)] obtain e where
    e: "body c 0 s0 = Inl e" "\<forall>s1. advance c 0 s0 = Inr s1 \<longrightarrow> e = AmbiguousBool" by auto
  from init_Inr [OF Inr] have y: "yielded s0 = []" by simp
  have g: "generate c = \<lparr>emitted = [], raised = Some e, warnings = [],
      temperature_after = unsqueeze0 (temperature c)\<rparr>"
    using Inr n e(1) y by (simp add: generate_def Let_def)
  with e Inr show ?thesis by auto
qed

lemma demo_pair_init:
  "init (demo\<lparr>prompt_ids := [[[5]], [[5]]], stream := True\<rparr>)
     = Inr (demo_state [[[5]], [[5]]] [False, False] [0, 0] 0 [True, True, True])"
  by (simp add: demo_def demo_state_def eval_defs)

lemma demo_pair_advance:
  "advance (demo\<lparr>prompt_ids := [[[5]], [[5]]], stream := True\<rparr>) 0
       (demo_state [[[5]], [[5]]] [False, False] [0, 0] 0 [True, True, True])
     = Inr (demo_state [[[5], [0]], [[5], [0]]] [True, True] [0, 0] 1 [True, True, True])"
  by (simp add: demo_def demo_state_def eval_defs)

lemma demo_pair_generate:
  "generate (demo\<lparr>prompt_ids := [[[5]], [[5]]], stream := True\<rparr>)
     = \<lparr>emitted = [], raised = Some AmbiguousBool, warnings = [],
        temperature_after = \<lparr>shape = [1, 1], vals = [1]\<rparr>\<rparr>"
  by (simp add: demo_def demo_state_def eval_defs numeral_2_eq_2)

theorem stream_batch_raises_witness:
  "stream (demo\<lparr>prompt_ids := [[[5]], [[5]]], stream := True\<rparr>)
   \<and> length (prompt_ids (demo\<lparr>prompt_ids := [[[5]], [[5]]], stream := True\<rparr>)) = 2
   \<and> max_new_token (demo\<lparr>prompt_ids := [[[5]], [[5]]], stream := True\<rparr>) = 2
   \<and> body (demo\<lparr>prompt_ids := [[[5]], [[5]]], stream := True\<rparr>) 0
        (demo_state [[[5]], [[5]]] [False, False] [0, 0] 0 [True, True, True]) = Inl AmbiguousBool
   \<and> raised (generate (demo\<lparr>prompt_ids := [[[5]], [[5]]], stream := True\<rparr>)) = Some AmbiguousBool
   \<and> emitted (generate (demo\<lparr>prompt_ids := [[[5]], [[5]]], stream := True\<rparr>)) = []"
proof -
  let ?c = "demo\<lparr>prompt_ids := [[[5]], [[5]]], stream := True\<rparr>"
  have h: "stream ?c" "1 < length (prompt_ids ?c)" "0 < max_new_token ?c"
    by (simp_all add: demo_def)
  from stream_batch_raises [OF h] demo_pair_init demo_pair_advance
  have "body ?c 0 (demo_state [[[5]], [[5]]] [False, False] [0, 0] 0 [True, True, True])
          = Inl AmbiguousBool \<and> raised (generate ?c) = Some AmbiguousBool
        \<and> emitted (generate ?c) = []"
    by blast
  then show ?thesis by (simp add: demo_def)
qed

text \<open>
  Claim C5. The claim fails for a streaming call of two rows: at step 0 both rows sample the
  end marker, so the whole batch has just finished and 24 divides both counters, and yet no
  snapshot is emitted, because the test of line 313 raises on the two-element tensor
  \<open>end_idx % 24\<close>.
\<close>

theorem stream_snapshot_missing:
  "advance (demo\<lparr>prompt_ids := [[[5]], [[5]]], stream := True\<rparr>) 0
       (demo_state [[[5]], [[5]]] [False, False] [0, 0] 0 [True, True, True])
     = Inr (demo_state [[[5], [0]], [[5], [0]]] [True, True] [0, 0] 1 [True, True, True])
   \<and> all_finished (finish (demo_state [[[5], [0]], [[5], [0]]] [True, True] [0, 0] 1 [True, True, True]))
   \<and> map (\<lambda>e. e mod 24) (end_idx (demo_state [[[5], [0]], [[5], [0]]] [True, True] [0, 0] 1 [True, True, True]))
       = [0, 0]
   \<and> emitted (generate (demo\<lparr>prompt_ids := [[[5]], [[5]]], stream := True\<rparr>)) = []
   \<and> raised (generate (demo\<lparr>prompt_ids := [[[5]], [[5]]], stream := True\<rparr>)) = Some AmbiguousBool"
  using demo_pair_advance demo_pair_generate by (simp add: demo_state_def all_finished_def)

text \<open>
  Claim C4. The claim fails for a call with \<open>max_new_token = 0\<close> and \<open>return_hidden\<close>: the
  loop is exhausted at once with the one row unfinished, and the call raises on
  \<open>torch.stack(hiddens, 1)\<close> of line 336, the list being empty; no warning is logged and
  no payload is returned.
\<close>

theorem exhausted_without_steps_raises:
  "init (demo\<lparr>max_new_token := 0, return_hidden := True\<rparr>)
     = Inr (demo_state [[[5]]] [False] [0] 0 [True])
   \<and> loop (demo\<lparr>max_new_token := 0, return_hidden := True\<rparr>) 0
        (max_new_token (demo\<lparr>max_new_token := 0, return_hidden := True\<rparr>))
        (demo_state [[[5]]] [False] [0] 0 [True])
      = (None, demo_state [[[5]]] [False] [0] 0 [True])
   \<and> \<not> all_finished (finish (demo_state [[[5]]] [False] [0] 0 [True]))
   \<and> generate (demo\<lparr>max_new_token := 0, return_hidden := True\<rparr>)
      = \<lparr>emitted = [], raised = Some EmptyStack, warnings = [],
         temperature_after = \<lparr>shape = [1, 1], vals = [1]\<rparr>\<rparr>"
  by (simp add: demo_def demo_state_def eval_defs)

subsection \<open>All rows finished at step 0\<close>


lemma finalize_ok:
  assumes "return_hidden c \<longrightarrow> hiddens s \<noteq> []"
  shows "\<exists>hs. finalize c t s
     = \<lparr>emitted = yielded s
          @ [\<lparr>ids = truncated_ids c s, p_attentions = attentions s, p_hiddens = hs\<rparr>],
        raised = None,
        warnings = (if all_finished (finish s) then [] else [IncompleteResult (max_new_token c)]),
        temperature_after = t\<rparr>"
  using assms by (simp add: finalize_def truncated_hiddens_def)

lemma snapshot_ok:
  assumes "return_hidden c \<longrightarrow> hiddens s \<noteq> []"
  shows "\<exists>hs. snapshot c s
     = Inr \<lparr>ids = truncated_ids c s, p_attentions = attentions s, p_hiddens = hs\<rparr>"
  using assms by (simp add: snapshot_def truncated_hiddens_def)







subsection \<open>The end marker below \<open>min_new_token\<close>\<close>

lemma set_cols_length: "set_cols ks row = Inr row' \<Longrightarrow> length row' = length row"
  by (induction ks arbitrary: row) (auto split: option.splits)

lemma set_cols_keeps:
  "set_cols ks row = Inr row' \<Longrightarrow> j < length row \<Longrightarrow> row ! j = NegInf \<Longrightarrow> row' ! j = NegInf"
proof (induction ks arbitrary: row)
  case Nil
  then show ?case by simp
next
  case (Cons k ks)
  from Cons.prems(1) obtain m where m: "norm_index (length row) k = Some m"
    and r: "set_cols ks (row[m := NegInf]) = Inr row'"
    by (auto split: option.splits)
  from Cons.IH [OF r] Cons.prems(2,3) show ?case
    by (cases "j = m") simp_all
qed

lemma norm_index_less: "norm_index n k = Some j \<Longrightarrow> j < n"
  by (auto simp: norm_index_def split: if_splits)

lemma set_cols_NegInf:
  "set_cols ks row = Inr row' \<Longrightarrow> k \<in> set ks
     \<Longrightarrow> \<exists>j. norm_index (length row) k = Some j \<and> row' ! j = NegInf"
proof (induction ks arbitrary: row)
  case Nil
  then show ?case by simp
next
  case (Cons a ks)
  from Cons.prems(1) obtain m where m: "norm_index (length row) a = Some m"
    and r: "set_cols ks (row[m := NegInf]) = Inr row'"
    by (auto split: option.splits)
  show ?case
  proof (cases "k = a")
    case True
    have "m < length row" using m by (rule norm_index_less)
    with set_cols_keeps [OF r, of m] have "row' ! m = NegInf" by simp
    with True m show ?thesis by simp
  next
    case False
    with Cons.prems(2) have "k \<in> set ks" by simp
    from Cons.IH [OF r this] show ?thesis by simp
  qed
qed

lemma wexp_nonneg: "0 \<le> wexp x"
  by (cases x) (simp_all add: wexp_def)

lemma sum_list_wexp_pos:
  assumes "Val v \<in> set xs"
  shows "0 < sum_list (map wexp xs)"
proof -
  have "0 < wexp (Val v)" by (simp add: wexp_def)
  moreover have "wexp (Val v) \<le> sum_list (map wexp xs)"
    using assms by (intro member_le_sum_list) (auto simp: wexp_nonneg)
  ultimately show ?thesis by linarith
qed

lemma softmax_Some:
  assumes "softmax xs = Some ws"
  shows "length ws = length xs \<and> (\<exists>j < length ws. 0 < ws ! j)
     \<and> (\<forall>j < length xs. xs ! j = NegInf \<longrightarrow> ws ! j = 0)"
proof -
  from assms have n: "NaN \<notin> set xs" "PosInf \<notin> set xs" "\<not> list_all (\<lambda>x. x = NegInf) xs"
    and ws: "ws = map (\<lambda>x. wexp x / sum_list (map wexp xs)) xs"
    by (auto simp: softmax_def split: if_splits)
  from n(3) obtain j where j: "j < length xs" "xs ! j \<noteq> NegInf"
    by (auto simp: list_all_length)
  with n(1,2) obtain v where v: "xs ! j = Val v"
    by (cases "xs ! j") (auto simp: in_set_conv_nth)
  with j have "Val v \<in> set xs" by (metis nth_mem)
  then have z: "0 < sum_list (map wexp xs)" by (rule sum_list_wexp_pos)
  have "0 < ws ! j" using ws j v z by (simp add: wexp_def)
  moreover have "\<forall>j < length xs. xs ! j = NegInf \<longrightarrow> ws ! j = 0"
    using ws by (simp add: wexp_def)
  ultimately show ?thesis using ws j by auto
qed

lemma multinomial_Inr:
  assumes "multinomial d scores = Inr idx"
  shows "length idx = length scores
     \<and> (\<forall>r < length scores. \<exists>ws. scores ! r = Some ws \<and> idx ! r = d r ws)"
proof -
  from assms have n: "None \<notin> set scores"
    and i: "idx = map2 (\<lambda>r ws. d r (the ws)) [0..<length scores] scores"
    by (auto simp: multinomial_def split: if_splits)
  have "\<exists>ws. scores ! r = Some ws" if "r < length scores" for r
    using n that by (cases "scores ! r") (auto simp: in_set_conv_nth)
  then show ?thesis using i by fastforce
qed

lemma suppress_eos_Inr:
  assumes "suppress_eos e l = Inr l'"
  shows "length l' = length l \<and> (\<forall>r < length l. set_cols (eos_values e) (l ! r) = Inr (l' ! r))"
proof -
  from assms have "map (set_cols (eos_values e)) l = map Inr l'"
    unfolding suppress_eos_def by (rule collect_Inr)
  then show ?thesis by (metis length_map nth_map)
qed

lemma eos_any_True:
  assumes "eos_any e row = Inr True"
  shows "\<exists>x \<in> set row. x \<in> set (eos_values e)"
proof (cases e)
  case (EosInt k)
  with assms show ?thesis by (auto simp: eos_any_def eos_values_def)
next
  case (EosTensor ks)
  have h: "hd xs \<in> set xs" if "length xs = Suc 0" for xs :: "int list"
    using that by (cases xs) auto
  from EosTensor assms consider
      (a) "list_ex (\<lambda>(x, k). x = k) (zip row ks)"
    | (b) "length ks = Suc 0" "hd ks \<in> set row"
    | (c) "length row = Suc 0" "hd row \<in> set ks"
    by (auto simp: eos_any_def split: if_splits)
  then show ?thesis
  proof cases
    case a
    then show ?thesis using EosTensor
      by (auto simp: eos_values_def list_ex_iff dest: set_zip_leftD set_zip_rightD)
  next
    case b
    with h [OF b(1)] show ?thesis using EosTensor by (auto simp: eos_values_def)
  next
    case c
    with h [OF c(1)] show ?thesis using EosTensor by (auto simp: eos_values_def)
  qed
qed

lemma idx_rows_elems:
  assumes "idx_rows c b idx = Inr rows" "row \<in> set rows" "x \<in> set row"
  shows "\<exists>t \<in> set idx. x = int t"
proof (cases "infer_text c")
  case True
  with assms show ?thesis by (auto simp: idx_rows_def split: if_splits)
next
  case False
  with assms obtain r where "row = map int (take (num_vq c) (drop (r * num_vq c) idx))"
    by (auto simp: idx_rows_def split: if_splits)
  with assms(3) obtain t where "t \<in> set (take (num_vq c) (drop (r * num_vq c) idx))" "x = int t"
    by auto
  then have "t \<in> set idx" by (auto dest!: in_set_takeD in_set_dropD)
  with \<open>x = int t\<close> show ?thesis by blast
qed

lemma sample_next_Inr:
  assumes "sample_next c i temp cur raw = Inr idx"
  shows "\<exists>l. pipeline c i temp (logits_token c cur) raw = Inr l
           \<and> multinomial (draw c i) (map softmax l) = Inr idx"
proof (cases "pipeline c i temp (logits_token c cur) raw")
  case (Inl e)
  with assms show ?thesis by (simp add: sample_next_def)
next
  case (Inr l)
  with assms show ?thesis by (simp add: sample_next_def)
qed

lemma pipeline_suppressed:
  assumes "pipeline c i temp toks raw = Inr l" "i < min_new_token c"
  shows "\<exists>l2. suppress_eos (eos_token c) l2 = Inr l"
proof (cases "div_temperature raw temp")
  case (Inl e)
  with assms show ?thesis by (simp add: pipeline_def)
next
  case (Inr l0)
  with assms have "suppress_eos (eos_token c)
      (foldl (\<lambda>l w. w toks l) (foldl (\<lambda>l p. p toks l) l0 (LogitsProcessors c))
        (LogitsWarpers c)) = Inr l"
    by (simp add: pipeline_def Let_def)
  then show ?thesis by (rule exI)
qed

lemma suppressed_row_draw:
  assumes d: "sound_draw d" and sc: "set_cols ks row = Inr row'"
    and sm: "softmax row' = Some ws" and k: "k \<in> set ks"
  shows "(\<exists>j. norm_index (length row') k = Some j \<and> row' ! j = NegInf \<and> ws ! j = 0)
     \<and> int (d i r ws) \<noteq> k"
proof -
  have len: "length row' = length row" using sc by (rule set_cols_length)
  from set_cols_NegInf [OF sc k] obtain j where
    j: "norm_index (length row) k = Some j" "row' ! j = NegInf" by auto
  have jl: "j < length row" using j(1) by (rule norm_index_less)
  from softmax_Some [OF sm] have lw: "length ws = length row'"
    and pos: "\<exists>j < length ws. 0 < ws ! j"
    and z: "\<forall>j < length row'. row' ! j = NegInf \<longrightarrow> ws ! j = 0" by auto
  from z j(2) jl len have wj: "ws ! j = 0" by simp
  with j len have a: "\<exists>j. norm_index (length row') k = Some j \<and> row' ! j = NegInf \<and> ws ! j = 0"
    by auto
  from d pos have dr: "d i r ws < length ws" "0 < ws ! d i r ws"
    unfolding sound_draw_def by blast+
  have "int (d i r ws) \<noteq> k"
  proof
    assume e: "int (d i r ws) = k"
    with dr(1) lw len have "norm_index (length row) k = Some (d i r ws)"
      by (auto simp: norm_index_def)
    with j(1) have "j = d i r ws" by simp
    with wj dr(2) show False by simp
  qed
  with a show ?thesis by simp
qed

lemma suppressed_step:
  assumes "sound_draw (draw c)" and "i < min_new_token c" and "idx_next c i s = Inr idx"
  shows "\<exists>l. pipeline c i (temperature_rows s) (logits_token c (inputs_ids s))
                 (head_logits (model_out c i s)) = Inr l
            \<and> length idx = length l
            \<and> (\<forall>r < length l. \<forall>k \<in> set (eos_values (eos_token c)).
                 (\<exists>j ws. norm_index (length (l ! r)) k = Some j \<and> l ! r ! j = NegInf
                    \<and> softmax (l ! r) = Some ws \<and> ws ! j = 0)
                 \<and> int (idx ! r) \<noteq> k)"
proof -
  let ?ks = "eos_values (eos_token c)"
  from sample_next_Inr [OF assms(3) [unfolded idx_next_def]] obtain l where
    p: "pipeline c i (temperature_rows s) (logits_token c (inputs_ids s))
          (head_logits (model_out c i s)) = Inr l"
    and m: "multinomial (draw c i) (map softmax l) = Inr idx" by blast
  from pipeline_suppressed [OF p assms(2)] obtain l2 where
    s: "suppress_eos (eos_token c) l2 = Inr l" by blast
  from suppress_eos_Inr [OF s] have ll: "length l = length l2"
    and sc: "\<forall>r < length l2. set_cols ?ks (l2 ! r) = Inr (l ! r)" by blast+
  from multinomial_Inr [OF m] have li: "length idx = length l"
    and dr: "\<forall>r < length l. \<exists>ws. softmax (l ! r) = Some ws \<and> idx ! r = draw c i r ws"
    by simp_all
  have row: "(\<exists>j ws. norm_index (length (l ! r)) k = Some j \<and> l ! r ! j = NegInf
                \<and> softmax (l ! r) = Some ws \<and> ws ! j = 0) \<and> int (idx ! r) \<noteq> k"
    if r: "r < length l" and k: "k \<in> set ?ks" for r k
  proof -
    from dr r obtain ws where ws: "softmax (l ! r) = Some ws" and d: "idx ! r = draw c i r ws"
      by blast
    from sc r ll have c: "set_cols ?ks (l2 ! r) = Inr (l ! r)" by simp
    from suppressed_row_draw [OF assms(1) c ws k, of i r] obtain j where
      j: "norm_index (length (l ! r)) k = Some j" "l ! r ! j = NegInf" "ws ! j = 0"
      and n: "int (draw c i r ws) \<noteq> k" by blast
    from j ws have "\<exists>j ws. norm_index (length (l ! r)) k = Some j \<and> l ! r ! j = NegInf
                \<and> softmax (l ! r) = Some ws \<and> ws ! j = 0" by blast
    with n d show ?thesis by simp
  qed
  show ?thesis
  proof (intro exI [of _ l] conjI allI impI ballI)
    show "pipeline c i (temperature_rows s) (logits_token c (inputs_ids s))
          (head_logits (model_out c i s)) = Inr l" by (rule p)
    show "length idx = length l" by (rule li)
  next
    fix r k assume "r < length l" "k \<in> set ?ks"
    from row [OF this] show "\<exists>j ws. norm_index (length (l ! r)) k = Some j \<and> l ! r ! j = NegInf
                \<and> softmax (l ! r) = Some ws \<and> ws ! j = 0" by (rule conjunct1)
  next
    fix r k assume "r < length l" "k \<in> set ?ks"
    from row [OF this] show "int (idx ! r) \<noteq> k" by (rule conjunct2)
  qed
qed

lemma finish_or_True:
  assumes "finish_or c rows = Inr fo" "True \<in> set fo"
  shows "\<exists>row \<in> set rows. eos_any (eos_token c) row = Inr True"
proof -
  from assms(2) obtain n where n: "n < length fo" "fo ! n = True"
    unfolding in_set_conv_nth by blast
  from assms(1) have e: "map (eos_any (eos_token c)) rows = map Inr fo"
    unfolding finish_or_def by (rule collect_Inr)
  then have l: "length rows = length fo" by (metis length_map)
  with n have nr: "n < length rows" by simp
  have "map (eos_any (eos_token c)) rows ! n = map Inr fo ! n" using e by simp
  with n nr have "eos_any (eos_token c) (rows ! n) = Inr True" by simp
  moreover have "rows ! n \<in> set rows" using nr by (rule nth_mem)
  ultimately show ?thesis by blast
qed

text \<open>
  Claim C3. Under a draw that never returns an index of weight zero, at a step
  \<open>i < min_new_token\<close> whose sampling succeeds: the logits that reach softmax are the result
  of the whole chain with the column of every end marker set to \<open>-inf\<close>, the softmax
  weight of such a column is 0, no sampled index equals an end marker, and so the step
  finishes no row.
\<close>

theorem eos_suppressed_below_min:
  assumes "sound_draw (draw c)" and "i < min_new_token c" and "idx_next c i s = Inr idx"
  shows "(\<exists>l. pipeline c i (temperature_rows s) (logits_token c (inputs_ids s))
                 (head_logits (model_out c i s)) = Inr l
            \<and> length idx = length l
            \<and> (\<forall>r < length l. \<forall>k \<in> set (eos_values (eos_token c)).
                 \<exists>j ws. norm_index (length (l ! r)) k = Some j \<and> l ! r ! j = NegInf
                    \<and> softmax (l ! r) = Some ws \<and> ws ! j = 0))
     \<and> (\<forall>t \<in> set idx. int t \<notin> set (eos_values (eos_token c)))
     \<and> (\<forall>rows fo. idx_rows c (length (inputs_ids s)) idx = Inr rows \<and> finish_or c rows = Inr fo
           \<longrightarrow> True \<notin> set fo)"
proof -
  let ?ks = "eos_values (eos_token c)"
  from suppressed_step [OF assms] obtain l where
    p: "pipeline c i (temperature_rows s) (logits_token c (inputs_ids s))
          (head_logits (model_out c i s)) = Inr l"
    and li: "length idx = length l"
    and row: "\<forall>r < length l. \<forall>k \<in> set ?ks.
                 (\<exists>j ws. norm_index (length (l ! r)) k = Some j \<and> l ! r ! j = NegInf
                    \<and> softmax (l ! r) = Some ws \<and> ws ! j = 0)
                 \<and> int (idx ! r) \<noteq> k" by blast
  have tok: "\<forall>t \<in> set idx. int t \<notin> set ?ks"
  proof (intro ballI notI)
    fix t assume t: "t \<in> set idx" and k: "int t \<in> set ?ks"
    from t obtain r where r: "r < length idx" "idx ! r = t" unfolding in_set_conv_nth by blast
    from r(1) li have "r < length l" by simp
    with row k have "int (idx ! r) \<noteq> int t" by blast
    with r(2) show False by simp
  qed
  have fin: "True \<notin> set fo"
    if r: "idx_rows c (length (inputs_ids s)) idx = Inr rows" and f: "finish_or c rows = Inr fo"
    for rows fo
  proof
    assume "True \<in> set fo"
    from finish_or_True [OF f this] obtain rw where
      rw: "rw \<in> set rows" "eos_any (eos_token c) rw = Inr True" by blast
    from eos_any_True [OF rw(2)] obtain x where x: "x \<in> set rw" "x \<in> set ?ks" by blast
    from idx_rows_elems [OF r rw(1) x(1)] obtain t where "t \<in> set idx" "x = int t" by blast
    with tok x(2) show False by blast
  qed
  have a: "\<exists>l. pipeline c i (temperature_rows s) (logits_token c (inputs_ids s))
                 (head_logits (model_out c i s)) = Inr l
            \<and> length idx = length l
            \<and> (\<forall>r < length l. \<forall>k \<in> set (eos_values (eos_token c)).
                 \<exists>j ws. norm_index (length (l ! r)) k = Some j \<and> l ! r ! j = NegInf
                    \<and> softmax (l ! r) = Some ws \<and> ws ! j = 0)"
  proof (intro exI [of _ l] conjI allI impI ballI)
    show "pipeline c i (temperature_rows s) (logits_token c (inputs_ids s))
          (head_logits (model_out c i s)) = Inr l" by (rule p)
    show "length idx = length l" by (rule li)
  next
    fix r k assume "r < length l" "k \<in> set ?ks"
    with row show "\<exists>j ws. norm_index (length (l ! r)) k = Some j \<and> l ! r ! j = NegInf
                \<and> softmax (l ! r) = Some ws \<and> ws ! j = 0" by blast
  qed
  have b: "\<forall>rows fo. idx_rows c (length (inputs_ids s)) idx = Inr rows \<and> finish_or c rows = Inr fo
           \<longrightarrow> True \<notin> set fo"
    using fin by blast
  from a tok b show ?thesis by (intro conjI)
qed

lemma first_positive_sound: "sound_draw (\<lambda>i r ws. first_positive ws)"
proof -
  have "first_positive ws < length ws \<and> 0 < ws ! first_positive ws"
    if "\<exists>j < length ws. 0 < ws ! j" for ws :: "real list"
  proof -
    let ?n = "length (takeWhile (\<lambda>w. \<not> 0 < w) ws)"
    from that have "\<not> (\<forall>w \<in> set ws. \<not> 0 < w)" by (metis nth_mem)
    then have "takeWhile (\<lambda>w. \<not> 0 < w) ws \<noteq> ws" by (simp add: takeWhile_eq_all_conv)
    moreover have "takeWhile (\<lambda>w. \<not> 0 < w) ws = take ?n ws" by (rule takeWhile_eq_take)
    ultimately have "\<not> length ws \<le> ?n" by (metis take_all)
    then have l: "?n < length ws" by simp
    from nth_length_takeWhile [OF l] l show ?thesis by (simp add: first_positive_def)
  qed
  then show ?thesis unfolding sound_draw_def by blast
qed

theorem eos_suppressed_below_min_witness:
  "sound_draw (draw (demo\<lparr>min_new_token := 1\<rparr>))
   \<and> 0 < min_new_token (demo\<lparr>min_new_token := 1\<rparr>)
   \<and> idx_next (demo\<lparr>min_new_token := 1\<rparr>) 0
        (demo_state [[[5]]] [False] [0] 0 [True, True, True]) = Inr [1]
   \<and> eos_values (eos_token (demo\<lparr>min_new_token := 1\<rparr>)) = [0]
   \<and> int 1 \<notin> set (eos_values (eos_token (demo\<lparr>min_new_token := 1\<rparr>)))"
proof -
  let ?c = "demo\<lparr>min_new_token := 1\<rparr>"
  have d: "sound_draw (draw ?c)" using first_positive_sound by (simp add: demo_def)
  have m: "0 < min_new_token ?c" by (simp add: demo_def)
  from eos_suppressed_below_min [OF d m demo_min_idx_next]
  have "\<forall>t \<in> set [1::nat]. int t \<notin> set (eos_values (eos_token ?c))" by blast
  then have "int 1 \<notin> set (eos_values (eos_token ?c))" by simp
  moreover have "eos_values (eos_token ?c) = [0]" by (simp add: demo_def eos_values_def)
  ultimately show ?thesis using d m demo_min_idx_next by simp
qed

subsection \<open>The order of the sampling chain\<close>







subsection \<open>Streaming and non-streaming calls\<close>





















subsection \<open>An exhausted loop, and the cadence of a single row\<close>

text \<open>With at least one iteration, or without \<open>return_hidden\<close>, a call whose loop ends
  with a row unfinished raises nothing: it logs the warning and returns the payload cut to
  \<open>end_idx\<close>.\<close>

lemma iter_hiddens: "iter c i s brk \<Longrightarrow> return_hidden c \<Longrightarrow> length (hiddens s) = i"
proof (induction rule: iter.induct)
  case (iter_init s)
  then show ?case by (auto dest: init_Inr)
next
  case (iter_step i s s' brk)
  from body_fields [OF iter_step.hyps(3)] obtain s1 where
    a: "advance c i s = Inr s1" and e: "hiddens s' = hiddens s1" by blast
  from advance_Inr [OF a] have "hiddens s1 = (if return_hidden c
      then hiddens s @ [hidden_last (model_out c i s)] else hiddens s)" by blast
  with e iter_step.IH iter_step.prems show ?case by simp
qed

lemma iter_brk: "iter c i s brk \<Longrightarrow> brk \<Longrightarrow> all_finished (finish s)"
proof (induction rule: iter.induct)
  case (iter_init s)
  then show ?case by simp
next
  case (iter_step i s s' brk)
  from body_fields [OF iter_step.hyps(3)] iter_step.prems show ?case by blast
qed

lemma incomplete_result_returned:
  assumes "init c = Inr s0" and "loop c 0 (max_new_token c) s0 = (None, s)"
    and "\<not> all_finished (finish s)" and "return_hidden c \<longrightarrow> 0 < max_new_token c"
  shows "raised (generate c) = None
     \<and> warnings (generate c) = [IncompleteResult (max_new_token c)]
     \<and> (\<exists>hs. emitted (generate c)
           = yielded s @ [\<lparr>ids = truncated_ids c s, p_attentions = attentions s, p_hiddens = hs\<rparr>])"
proof -
  have i0: "iter c 0 s0 False" using assms(1) by (rule iter_init)
  from loop_iter [OF i0 _ assms(2)] obtain j brk where
    j: "iter c j s brk" "brk \<or> j = max_new_token c" by auto
  from iter_brk [OF j(1)] assms(3) have "\<not> brk" by blast
  with j(2) have jm: "j = max_new_token c" by simp
  have h: "return_hidden c \<longrightarrow> hiddens s \<noteq> []"
  proof
    assume r: "return_hidden c"
    from iter_hiddens [OF j(1) r] jm assms(4) r show "hiddens s \<noteq> []" by auto
  qed
  from finalize_ok [OF h, of "unsqueeze0 (temperature c)"] obtain hs where
    f: "finalize c (unsqueeze0 (temperature c)) s
     = \<lparr>emitted = yielded s
          @ [\<lparr>ids = truncated_ids c s, p_attentions = attentions s, p_hiddens = hs\<rparr>],
        raised = None,
        warnings = (if all_finished (finish s) then [] else [IncompleteResult (max_new_token c)]),
        temperature_after = unsqueeze0 (temperature c)\<rparr>"
    by blast
  have g: "generate c = finalize c (unsqueeze0 (temperature c)) s"
    using assms(1,2) by (simp add: generate_def Let_def)
  from g f assms(3) show ?thesis by simp
qed

text \<open>A streaming call of a single row yields a snapshot in an iteration, cut to the counter
  of the row, exactly when 24 divides the counter or the row has finished.\<close>

lemma stream_cadence_single_row:
  assumes "stream c" and "advance c i s = Inr a" and "end_idx a = [e]"
  shows "\<exists>s' hs. body c i s = Inr (s', all_finished (finish a))
     \<and> yielded s' = yielded s
          @ (if e mod 24 = 0 \<or> all_finished (finish a)
             then [\<lparr>ids = truncated_ids c a, p_attentions = attentions a, p_hiddens = hs\<rparr>]
             else [])"
proof -
  from advance_Inr [OF assms(2)] have ha: "hiddens a = (if return_hidden c
      then hiddens s @ [hidden_last (model_out c i s)] else hiddens s)"
    and ya: "yielded a = yielded s" by blast+
  from ha have "return_hidden c \<longrightarrow> hiddens a \<noteq> []" by simp
  from snapshot_ok [OF this] obtain hs where
    y: "snapshot c a = Inr \<lparr>ids = truncated_ids c a, p_attentions = attentions a, p_hiddens = hs\<rparr>"
    by blast
  have t: "truthy (map (\<lambda>e. e mod 24) (end_idx a)) = Inr (e mod 24 \<noteq> 0)"
    using assms(3) by (simp add: truthy_def)
  show ?thesis
  proof (cases "e mod 24 \<noteq> 0 \<and> \<not> all_finished (finish a)")
    case True
    with assms(1,2) t have "body c i s = Inr (a, all_finished (finish a))"
      by (simp add: body_def)
    with True ya show ?thesis by auto
  next
    case False
    with assms(1,2) t y have "body c i s = Inr (a\<lparr>yielded := yielded a
        @ [\<lparr>ids = truncated_ids c a, p_attentions = attentions a, p_hiddens = hs\<rparr>]\<rparr>,
        all_finished (finish a))"
      by (auto simp: body_def)
    with False ya show ?thesis by auto
  qed
qed

end
